theory Spec2Isabelle
  imports Main "HOL-Library.AList" "HOL-Library.Multiset"
begin

section \<open>Patterns and the backtracking matcher\<close>

text \<open>
  The scanner works on raw text with two regular expressions. A text is a \<open>string\<close>, the
  list of its character codes; the model covers the codes 0 to 255, which hold every
  character the two patterns name. The patterns of \<open>src/index.ts\<close> use literals,
  character classes, sequence, alternation and the greedy \<open>+\<close>; \<open>regex\<close> has one
  constructor for each.
\<close>

datatype regex =
    Class "char \<Rightarrow> bool"
  | Lit string
  | Seq regex regex
  | Alt regex regex
  | Plus regex

text \<open>
  The character classes of the two patterns. \<open>\s\<close> is white space and line terminators
  (tab, line feed, vertical tab, form feed, carriage return, space, no-break space),
  \<open>\w\<close> is \<open>[A-Za-z0-9_]\<close>, and \<open>.\<close> (no \<open>s\<close> flag) is every character but a line
  terminator.
\<close>

definition is_space :: "char \<Rightarrow> bool" where
  "is_space c \<longleftrightarrow>
     c \<in> set [CHR 0x09, CHR 0x0A, CHR 0x0B, CHR 0x0C, CHR 0x0D, CHR 0x20, CHR 0xA0]"

definition is_word :: "char \<Rightarrow> bool" where
  "is_word c \<longleftrightarrow>
     c \<in> set ''ABCDEFGHIJKLMNOPQRSTUVWXYZabcdefghijklmnopqrstuvwxyz0123456789_''"

definition is_dot :: "char \<Rightarrow> bool" where
  "is_dot c \<longleftrightarrow> c \<noteq> CHR 0x0A \<and> c \<noteq> CHR 0x0D"

text \<open>
  The matcher follows the backtracking semantics of the language standard: a pattern is
  run on the rest of the text with a continuation \<open>k\<close> for what follows it, and the first
  way to succeed, in priority order, is the result. \<open>Alt\<close> tries its left side first.
  \<open>Plus\<close> is greedy: after one iteration it tries another one before it goes on, and an
  iteration after the first that consumes nothing is rejected. Since every further
  iteration consumes a character, the length of the rest bounds their number;
  \<open>repeatMatcher\<close> counts them down (lemma \<open>repeatMatcher_fuel\<close>: a larger count changes
  nothing).
\<close>

primrec repeatMatcher :: "(string \<Rightarrow> (string \<Rightarrow> string option) \<Rightarrow> string option) \<Rightarrow> nat
    \<Rightarrow> string \<Rightarrow> (string \<Rightarrow> string option) \<Rightarrow> string option" where
  "repeatMatcher m 0 s k = k s"
| "repeatMatcher m (Suc n) s k =
     (case m s (\<lambda>t. if length t < length s then repeatMatcher m n t k else None) of
        Some r \<Rightarrow> Some r
      | None \<Rightarrow> k s)"

primrec mt :: "regex \<Rightarrow> string \<Rightarrow> (string \<Rightarrow> string option) \<Rightarrow> string option" where
  "mt (Class p) s k = (case s of [] \<Rightarrow> None | c # cs \<Rightarrow> if p c then k cs else None)"
| "mt (Lit w) s k = (if take (length w) s = w then k (drop (length w) s) else None)"
| "mt (Seq a b) s k = mt a s (\<lambda>t. mt b t k)"
| "mt (Alt a b) s k = (case mt a s k of Some r \<Rightarrow> Some r | None \<Rightarrow> mt b s k)"
| "mt (Plus a) s k = mt a s (\<lambda>t. repeatMatcher (mt a) (length t) t k)"

text \<open>
  \<open>exec\<close> is one search: the pattern is tried at the start of the text, then one
  character further, and so on to the end of the text. It returns the matched text and
  the text after the match.
\<close>

fun exec :: "regex \<Rightarrow> string \<Rightarrow> (string \<times> string) option" where
  "exec r [] = (case mt r [] Some of Some t \<Rightarrow> Some ([], t) | None \<Rightarrow> None)"
| "exec r (c # cs) =
     (case mt r (c # cs) Some of
        Some t \<Rightarrow> Some (take (length (c # cs) - length t) (c # cs), t)
      | None \<Rightarrow> exec r cs)"

section \<open>The Import Detector\<close>

text \<open>
  \<open>isImported\<close> builds the pattern
  \<^verbatim>\<open>import{1}(.|\n)+(NAME)+(.|\n)+from.+\<close> with the flags \<open>gm\<close>, where \<open>NAME\<close> is the text of
  \<open>exportName\<close>, and asks \<open>contents.match\<close> for its matches: the answer is \<open>true\<close> when
  there is at least one, that is when the first search finds one. \<open>t{1}\<close> is one \<open>t\<close>, and
  the flag \<open>m\<close> only changes \<open>^\<close> and \<open>$\<close>, which the pattern does not use.

  The name is spliced into the pattern as pattern text. The model reads it as a literal,
  which is what the pattern means for a name without pattern syntax characters
  (\<open>plain_name\<close>); \<open>getExports\<close> yields only such names, made of \<open>\w\<close> and \<open>\s\<close>
  characters.
\<close>

definition plain_name :: "string \<Rightarrow> bool" where
  "plain_name n = list_all (\<lambda>c. c \<notin> set (CHR 0x5C # ''^$.*+?()[]{}|'')) n"

definition importPattern :: "string \<Rightarrow> regex" where
  "importPattern exportName =
     Seq (Lit ''import'')
    (Seq (Plus (Alt (Class is_dot) (Lit [CHR 0x0A])))
    (Seq (Plus (Lit exportName))
    (Seq (Plus (Alt (Class is_dot) (Lit [CHR 0x0A])))
    (Seq (Lit ''from'')
         (Plus (Class is_dot))))))"

definition isImported :: "string \<Rightarrow> string \<Rightarrow> bool" where
  "isImported exportName contents = (exec (importPattern exportName) contents \<noteq> None)"

section \<open>File records, counters and the report\<close>

text \<open>
  A \<open>FileDetails\<close> object has three fields, never written after its creation. The engine
  compares file objects by identity and keys its report by identity, so a file list is a
  list of references into a heap of objects; the same reference twice is the same object.
\<close>

record FileDetails =
  path :: string
  contents :: string
  exports :: "string list"

type_synonym ref = nat

type_synonym heap = "ref \<Rightarrow> FileDetails"

text \<open>
  \<open>importCounts\<close> is a plain object used as a table from names to numbers. The model
  keeps its own properties in the order of their creation. The language lists the keys
  of an object (for \<open>Object.entries\<close> and for the spread \<open>{...map}\<close>) with the array
  indices first, in ascending numeric order, and the other strings after them in creation
  order. An array index is the canonical decimal numeral of an integer below \<open>2^32 - 1\<close>.
\<close>

type_synonym counts = "(string \<times> nat) list"

definition is_digit :: "char \<Rightarrow> bool" where
  "is_digit c \<longleftrightarrow> c \<in> set ''0123456789''"

definition index_value :: "string \<Rightarrow> int" where
  "index_value s = foldl (\<lambda>n c. 10 * n + (of_char c - 48)) 0 s"

definition is_array_index :: "string \<Rightarrow> bool" where
  "is_array_index s \<longleftrightarrow>
     (case s of
        [] \<Rightarrow> False
      | c # cs \<Rightarrow> list_all is_digit s \<and> (if c = CHR ''0'' then cs = [] else True)
          \<and> index_value s < 2 ^ 32 - 1)"

definition key_order :: "string list \<Rightarrow> string list" where
  "key_order ks =
     sort_key index_value (filter is_array_index ks) @ filter (\<lambda>k. \<not> is_array_index k) ks"

definition entries :: "counts \<Rightarrow> (string \<times> nat) list" where
  "entries obj =
     sort_key (\<lambda>p. index_value (fst p)) (filter (\<lambda>p. is_array_index (fst p)) obj)
       @ filter (\<lambda>p. \<not> is_array_index (fst p)) obj"

text \<open>
  \<open>{...map, [exp]: 0}\<close> is a new object: the properties of \<open>map\<close> are created in the order
  \<open>entries\<close> lists them, then \<open>exp\<close> is set to 0, in place when the key is there and as the
  newest property otherwise (\<open>AList.update\<close> does exactly this).
\<close>

definition initCounts :: "string list \<Rightarrow> counts" where
  "initCounts exps = foldl (\<lambda>map exp. AList.update exp 0 (entries map)) [] exps"

text \<open>
  \<open>importCounts[exp]++\<close>. Every \<open>exp\<close> the engine increments is a key of the table
  (lemma \<open>keys_countImports\<close>), so the branch \<open>None\<close> is never taken.
\<close>

definition incr :: "string \<Rightarrow> counts \<Rightarrow> counts" where
  "incr exp obj =
     (case map_of obj exp of Some n \<Rightarrow> AList.update exp (n + 1) obj | None \<Rightarrow> obj)"

text \<open>The loop over the exports of file A, for one file B (lines 113 to 118).\<close>

definition scanExports :: "string list \<Rightarrow> string \<Rightarrow> counts \<Rightarrow> counts" where
  "scanExports exps contentsB importCounts =
     foldl (\<lambda>m exp. if isImported exp contentsB then incr exp m else m) importCounts exps"

text \<open>The counters of file A after the loop over every file B (lines 104 to 119).\<close>

definition countImports :: "heap \<Rightarrow> ref list \<Rightarrow> ref \<Rightarrow> counts" where
  "countImports h files fileA =
     foldl (\<lambda>m fileB. if fileA = fileB then m
                       else scanExports (exports (h fileA)) (contents (h fileB)) m)
       (initCounts (exports (h fileA))) files"

text \<open>
  The report is a \<open>Map\<close> from file objects to arrays of names: an association list in
  insertion order, keyed by reference. \<open>recordDead\<close> is the loop over the entries of the
  counters (lines 121 to 133): a name with a count above 0 is skipped, any other name is
  pushed on the array of file A, which is created at the first such name.
\<close>

type_synonym report = "(ref \<times> string list) list"

definition recordDead :: "ref \<Rightarrow> counts \<Rightarrow> report \<Rightarrow> report" where
  "recordDead fileA importCounts filesWithDeadExports =
     foldl (\<lambda>report (exp, count).
              if count > 0 then report
              else (case map_of report fileA of
                      Some existingEntry \<Rightarrow> AList.update fileA (existingEntry @ [exp]) report
                    | None \<Rightarrow> AList.update fileA [exp] report))
       filesWithDeadExports (entries importCounts)"

definition getFilesWithDeadExports :: "heap \<Rightarrow> ref list \<Rightarrow> report" where
  "getFilesWithDeadExports h files =
     foldl (\<lambda>report fileA. recordDead fileA (countImports h files fileA) report) [] files"

section \<open>What a pattern matches\<close>

text \<open>
  \<open>lang r\<close> is the set of texts the pattern \<open>r\<close> can match from its first to its last
  character. The matcher finds a match exactly when some part of the text is in \<open>lang r\<close>
  (lemmas \<open>mt_sound\<close>, \<open>mt_complete\<close> and \<open>exec_iff\<close> below); which match it returns is
  decided by the priorities.
\<close>

primrec lang :: "regex \<Rightarrow> string set" where
  "lang (Class p) = {[c] | c. p c}"
| "lang (Lit w) = {w}"
| "lang (Seq a b) = {u @ v | u v. u \<in> lang a \<and> v \<in> lang b}"
| "lang (Alt a b) = lang a \<union> lang b"
| "lang (Plus a) = {concat ws | ws. ws \<noteq> [] \<and> set ws \<subseteq> lang a}"

lemma rep_sound:
  assumes m: "\<And>s k x. m s k = Some x \<Longrightarrow> \<exists>u t. s = u @ t \<and> u \<in> L \<and> k t = Some x"
  shows "repeatMatcher m n s k = Some x
    \<Longrightarrow> \<exists>ws t. s = concat ws @ t \<and> set ws \<subseteq> L \<and> k t = Some x"
proof (induction n arbitrary: s)
  case 0
  then have "s = concat [] @ s \<and> set [] \<subseteq> L \<and> k s = Some x" by simp
  then show ?case by blast
next
  case (Suc n)
  let ?d = "\<lambda>t. if length t < length s then repeatMatcher m n t k else None"
  show ?case
  proof (cases "m s ?d")
    case None
    with Suc.prems have "k s = Some x" by simp
    then have "s = concat [] @ s \<and> set [] \<subseteq> L \<and> k s = Some x" by simp
    then show ?thesis by blast
  next
    case (Some y)
    with Suc.prems have "m s ?d = Some x" by simp
    from m [OF this] obtain u t where ut: "s = u @ t" "u \<in> L" "?d t = Some x" by blast
    then have "repeatMatcher m n t k = Some x" by (simp split: if_splits)
    from Suc.IH [OF this] obtain ws t' where "t = concat ws @ t'" "set ws \<subseteq> L" "k t' = Some x"
      by blast
    with ut have "s = concat (u # ws) @ t' \<and> set (u # ws) \<subseteq> L \<and> k t' = Some x" by simp
    then show ?thesis by blast
  qed
qed

lemma mt_sound:
  "mt r s k = Some x \<Longrightarrow> \<exists>u t. s = u @ t \<and> u \<in> lang r \<and> k t = Some x"
proof (induction r arbitrary: s k x)
  case (Class p)
  then obtain c cs where "s = [c] @ cs" "p c" "k cs = Some x"
    by (cases s) (auto split: if_splits)
  then have "s = [c] @ cs \<and> [c] \<in> lang (Class p) \<and> k cs = Some x" by simp
  then show ?case by blast
next
  case (Lit w)
  then have "take (length w) s = w" "k (drop (length w) s) = Some x"
    by (auto split: if_splits)
  then have "s = w @ drop (length w) s \<and> w \<in> lang (Lit w) \<and> k (drop (length w) s) = Some x"
    by (metis append_take_drop_id lang.simps(2) singletonI)
  then show ?case by blast
next
  case (Seq a b)
  from Seq.prems have "mt a s (\<lambda>t. mt b t k) = Some x" by simp
  from Seq.IH(1) [OF this] obtain u t where ut: "s = u @ t" "u \<in> lang a" "mt b t k = Some x"
    by blast
  from Seq.IH(2) [OF ut(3)] obtain v t' where "t = v @ t'" "v \<in> lang b" "k t' = Some x"
    by blast
  with ut have "s = (u @ v) @ t' \<and> u @ v \<in> lang (Seq a b) \<and> k t' = Some x" by auto
  then show ?case by blast
next
  case (Alt a b)
  show ?case
  proof (cases "mt a s k")
    case None
    with Alt.prems have "mt b s k = Some x" by simp
    from Alt.IH(2) [OF this] show ?thesis by auto
  next
    case (Some y)
    with Alt.prems have "mt a s k = Some x" by simp
    from Alt.IH(1) [OF this] show ?thesis by auto
  qed
next
  case (Plus a)
  from Plus.prems have "mt a s (\<lambda>t. repeatMatcher (mt a) (length t) t k) = Some x" by simp
  from Plus.IH [OF this] obtain u t where
    ut: "s = u @ t" "u \<in> lang a" "repeatMatcher (mt a) (length t) t k = Some x" by blast
  from rep_sound [of "mt a" "lang a", OF Plus.IH ut(3)] obtain ws t' where
    "t = concat ws @ t'" "set ws \<subseteq> lang a" "k t' = Some x" by blast
  with ut have "s = concat (u # ws) @ t' \<and> concat (u # ws) \<in> lang (Plus a) \<and> k t' = Some x"
    by (auto intro!: exI [of _ "u # ws"])
  then show ?case by blast
qed

lemma rep_complete:
  assumes m: "\<And>u t k. u \<in> L \<Longrightarrow> k t \<noteq> None \<Longrightarrow> m (u @ t) k \<noteq> None"
  shows "\<forall>w\<in>set ws. w \<in> L \<and> w \<noteq> [] \<Longrightarrow> k t \<noteq> None \<Longrightarrow> length (concat ws) \<le> n
    \<Longrightarrow> repeatMatcher m n (concat ws @ t) k \<noteq> None"
proof (induction ws arbitrary: n)
  case Nil
  then show ?case by (cases n) (auto split: option.splits)
next
  case (Cons w ws)
  then obtain n' where n: "n = Suc n'" by (cases n) auto
  let ?s = "concat (w # ws) @ t"
  let ?d = "\<lambda>t'. if length t' < length ?s then repeatMatcher m n' t' k else None"
  from Cons.prems have "w \<noteq> []" by simp
  then have "0 < length w" by simp
  moreover from Cons.prems(3) n have "length w + length (concat ws) \<le> Suc n'" by simp
  ultimately have "length (concat ws) \<le> n'" by arith
  with Cons.prems have "repeatMatcher m n' (concat ws @ t) k \<noteq> None"
    by (intro Cons.IH) auto
  moreover from Cons.prems have "length (concat ws @ t) < length ?s" by simp
  ultimately have "?d (concat ws @ t) \<noteq> None" by simp
  moreover from Cons.prems have "w \<in> L" by simp
  ultimately have "m (w @ (concat ws @ t)) ?d \<noteq> None" by (rule m [rotated])
  then show ?case by (auto simp: n)
qed

lemma mt_complete:
  "u \<in> lang r \<Longrightarrow> k t \<noteq> None \<Longrightarrow> mt r (u @ t) k \<noteq> None"
proof (induction r arbitrary: u t k)
  case (Class p)
  then show ?case by auto
next
  case (Lit w)
  then show ?case by auto
next
  case (Seq a b)
  then obtain v w where vw: "u = v @ w" "v \<in> lang a" "w \<in> lang b" by auto
  from vw(3) Seq.prems(2) have "mt b (w @ t) k \<noteq> None" by (rule Seq.IH(2))
  from Seq.IH(1) [of v "\<lambda>t. mt b t k" "w @ t", OF vw(2) this] show ?case by (simp add: vw)
next
  case (Alt a b)
  show ?case
  proof (cases "mt a (u @ t) k")
    case None
    with Alt.IH(1) [of u k t] Alt.prems have "u \<in> lang b" by auto
    with Alt.IH(2) [of u k t] Alt.prems None show ?thesis by simp
  next
    case (Some y)
    then show ?thesis by simp
  qed
next
  case (Plus a)
  then obtain w ws where ws: "u = concat (w # ws)" "w \<in> lang a" "set ws \<subseteq> lang a"
    by (auto simp: neq_Nil_conv)
  let ?ws = "filter (\<lambda>w. w \<noteq> []) ws"
  have c: "concat ?ws = concat ws" by (induction ws) auto
  have "repeatMatcher (mt a) (length (concat ?ws @ t)) (concat ?ws @ t) k \<noteq> None"
    using ws(3) Plus.prems(2) by (intro rep_complete [of "lang a"] Plus.IH) auto
  then have "(\<lambda>t. repeatMatcher (mt a) (length t) t k) (concat ws @ t) \<noteq> None"
    by (simp add: c)
  with ws(2)
  have "mt a (w @ (concat ws @ t)) (\<lambda>t. repeatMatcher (mt a) (length t) t k) \<noteq> None"
    by (rule Plus.IH)
  then show ?case by (simp add: ws)
qed

lemma exec_Some_length: "exec r s = Some (m, t) \<Longrightarrow> length m + length t \<le> length s"
proof (induction s)
  case Nil
  then show ?case
    by (auto split: option.splits dest: mt_sound)
next
  case (Cons c cs)
  show ?case
  proof (cases "mt r (c # cs) Some")
    case None
    with Cons show ?thesis by simp
  next
    case (Some t')
    from mt_sound [OF this] obtain u where "c # cs = u @ t'" by auto
    then have "length t' \<le> length (c # cs)"
      by (metis length_append le_add2)
    with Some Cons.prems show ?thesis by auto
  qed
qed

lemma exec_iff: "exec r s \<noteq> None \<longleftrightarrow> (\<exists>p u t. s = p @ u @ t \<and> u \<in> lang r)"
proof (induction s)
  case Nil
  show ?case
  proof
    assume "exec r [] \<noteq> None"
    then obtain x where "mt r [] Some = Some x" by (auto split: option.splits)
    from mt_sound [OF this] show "\<exists>p u t. [] = p @ u @ t \<and> u \<in> lang r" by auto
  next
    assume "\<exists>p u t. [] = p @ u @ t \<and> u \<in> lang r"
    then have "[] \<in> lang r" by auto
    from mt_complete [OF this, of Some "[]"] show "exec r [] \<noteq> None"
      by (auto split: option.splits)
  qed
next
  case (Cons c cs)
  show ?case
  proof
    assume a: "exec r (c # cs) \<noteq> None"
    show "\<exists>p u t. c # cs = p @ u @ t \<and> u \<in> lang r"
    proof (cases "mt r (c # cs) Some")
      case None
      with a have "exec r cs \<noteq> None" by simp
      with Cons obtain p u t where "cs = p @ u @ t" "u \<in> lang r" by blast
      then have "c # cs = (c # p) @ u @ t \<and> u \<in> lang r" by simp
      then show ?thesis by blast
    next
      case (Some x)
      from mt_sound [OF this] obtain u t where "c # cs = [] @ u @ t" "u \<in> lang r" by auto
      then show ?thesis by blast
    qed
  next
    assume "\<exists>p u t. c # cs = p @ u @ t \<and> u \<in> lang r"
    then obtain p u t where put: "c # cs = p @ u @ t" "u \<in> lang r" by blast
    show "exec r (c # cs) \<noteq> None"
    proof (cases p)
      case Nil
      with put mt_complete [OF put(2), of Some t] have "mt r (c # cs) Some \<noteq> None" by simp
      then show ?thesis by (auto split: option.splits)
    next
      case (Cons c' p')
      with put have "cs = p' @ u @ t" by simp
      with put(2) Cons.IH have "exec r cs \<noteq> None" by blast
      then show ?thesis by (auto split: option.splits)
    qed
  qed
qed

text \<open>
  The bound on the iterations of \<open>Plus\<close> is never the limit: a matcher reaches its
  continuation only with a rest of the text that is not longer than the text it started
  on (\<open>mt_cong\<close>), and with a count of at least the length of the text \<open>repeatMatcher\<close>
  gives the same result as with any larger count (\<open>repeatMatcher_fuel\<close>).
\<close>

lemma mt_fails: "mt r s (\<lambda>t. None) = None"
proof (cases "mt r s (\<lambda>t. None)")
  case (Some x)
  from mt_sound [OF this] show ?thesis by simp
qed simp

lemma repeatMatcher_cong:
  assumes m: "\<And>s k1 k2. (\<And>t. length t \<le> length s \<Longrightarrow> k1 t = k2 t) \<Longrightarrow> m s k1 = m s k2"
  shows "(\<And>t. length t \<le> length s \<Longrightarrow> k1 t = k2 t)
    \<Longrightarrow> repeatMatcher m n s k1 = repeatMatcher m n s k2"
proof (induction n arbitrary: s)
  case 0
  then show ?case by simp
next
  case (Suc n)
  have "m s (\<lambda>t. if length t < length s then repeatMatcher m n t k1 else None)
      = m s (\<lambda>t. if length t < length s then repeatMatcher m n t k2 else None)"
  proof (rule m)
    fix t :: string assume "length t \<le> length s"
    show "(if length t < length s then repeatMatcher m n t k1 else None)
        = (if length t < length s then repeatMatcher m n t k2 else None)"
    proof (cases "length t < length s")
      case True
      then have "repeatMatcher m n t k1 = repeatMatcher m n t k2"
        by (intro Suc.IH Suc.prems) simp
      with True show ?thesis by simp
    qed simp
  qed
  moreover have "k1 s = k2 s" by (rule Suc.prems) simp
  ultimately show ?case by (simp split: option.splits)
qed

lemma mt_cong:
  "(\<And>t. length t \<le> length s \<Longrightarrow> k1 t = k2 t) \<Longrightarrow> mt r s k1 = mt r s k2"
proof (induction r arbitrary: s k1 k2)
  case (Class p)
  then show ?case by (cases s) simp_all
next
  case (Lit w)
  then show ?case by simp
next
  case (Seq a b)
  have "mt a s (\<lambda>t. mt b t k1) = mt a s (\<lambda>t. mt b t k2)"
  proof (rule Seq.IH(1))
    fix t :: string assume t: "length t \<le> length s"
    show "mt b t k1 = mt b t k2"
    proof (rule Seq.IH(2))
      fix t' :: string assume "length t' \<le> length t"
      with t show "k1 t' = k2 t'" by (intro Seq.prems) simp
    qed
  qed
  then show ?case by simp
next
  case (Alt a b)
  from Alt.prems have "mt a s k1 = mt a s k2" "mt b s k1 = mt b s k2"
    by (auto intro: Alt.IH)
  then show ?case by (simp split: option.splits)
next
  case (Plus a)
  have "mt a s (\<lambda>t. repeatMatcher (mt a) (length t) t k1)
      = mt a s (\<lambda>t. repeatMatcher (mt a) (length t) t k2)"
  proof (rule Plus.IH)
    fix t :: string assume t: "length t \<le> length s"
    show "repeatMatcher (mt a) (length t) t k1 = repeatMatcher (mt a) (length t) t k2"
    proof (rule repeatMatcher_cong)
      fix s' :: string and k1' k2' :: "string \<Rightarrow> string option"
      assume "\<And>t. length t \<le> length s' \<Longrightarrow> k1' t = k2' t"
      then show "mt a s' k1' = mt a s' k2'" by (rule Plus.IH)
    next
      fix t' :: string assume "length t' \<le> length t"
      with t show "k1 t' = k2 t'" by (intro Plus.prems) simp
    qed
  qed
  then show ?case by simp
qed

lemma repeatMatcher_Suc:
  "length s \<le> n \<Longrightarrow> repeatMatcher (mt a) (Suc n) s k = repeatMatcher (mt a) n s k"
proof (induction n arbitrary: s)
  case 0
  then show ?case by (simp add: mt_fails)
next
  case (Suc n)
  have "mt a s (\<lambda>t. if length t < length s then repeatMatcher (mt a) (Suc n) t k else None)
      = mt a s (\<lambda>t. if length t < length s then repeatMatcher (mt a) n t k else None)"
  proof (rule mt_cong)
    fix t :: string assume "length t \<le> length s"
    show "(if length t < length s then repeatMatcher (mt a) (Suc n) t k else None)
        = (if length t < length s then repeatMatcher (mt a) n t k else None)"
    proof (cases "length t < length s")
      case True
      with Suc.prems have "length t \<le> n" by simp
      from Suc.IH [OF this] True show ?thesis by simp
    qed simp
  qed
  then show ?case by (simp split: option.splits)
qed

lemma repeatMatcher_fuel:
  "length s \<le> n \<Longrightarrow> repeatMatcher (mt a) n s k = repeatMatcher (mt a) (length s) s k"
proof (induction n rule: dec_induct)
  case base
  show ?case by simp
next
  case (step j)
  from step(1) have "repeatMatcher (mt a) (Suc j) s k = repeatMatcher (mt a) j s k"
    by (rule repeatMatcher_Suc)
  with step(3) show ?case by simp
qed

section \<open>The Export Extractor\<close>

text \<open>
  \<open>contents.match\<close> with a global pattern searches again from the end of each match; after
  an empty match the next search starts one character further, and it stops at the end of
  the text. \<open>match_all\<close> is the array of the matched texts, and \<open>match_g\<close> is the result of
  the call, \<open>null\<close> (here \<open>None\<close>) when the array would be empty.
\<close>

function match_all :: "regex \<Rightarrow> string \<Rightarrow> string list" where
  "match_all r s =
     (case exec r s of
        None \<Rightarrow> []
      | Some (m, t) \<Rightarrow>
          if m = [] then (case t of [] \<Rightarrow> [m] | c # t' \<Rightarrow> m # match_all r t')
          else m # match_all r t)"
  by pat_completeness auto
termination
proof (relation "measure (\<lambda>(r, s). length s)")
  show "wf (measure (\<lambda>(r, s). length s))" by simp
next
  fix r :: regex and s x y :: string and x2 c t'
  assume "exec r s = Some x2" "(x, y) = x2" "x = []" "y = c # t'"
  then have "exec r s = Some (x, c # t')" by simp
  from exec_Some_length [OF this] show "((r, t'), (r, s)) \<in> measure (\<lambda>(r, s). length s)"
    by simp
next
  fix r :: regex and s x y :: string and x2
  assume "exec r s = Some x2" "(x, y) = x2" "x \<noteq> []"
  then have e: "exec r s = Some (x, y)" and x: "0 < length x" by simp_all
  from exec_Some_length [OF e] x have "length y < length s" by arith
  then show "((r, y), (r, s)) \<in> measure (\<lambda>(r, s). length s)" by simp
qed

declare match_all.simps [simp del]

definition match_g :: "regex \<Rightarrow> string \<Rightarrow> string list option" where
  "match_g r s = (case match_all r s of [] \<Rightarrow> None | m # ms \<Rightarrow> Some (m # ms))"

text \<open>
  The pattern of \<open>getExports\<close>:
  \<^verbatim>\<open>export\s+(const|let|var|class|interface|type|enum|default async function|\<close>
  \<^verbatim>\<open>default function|function|default)\s+(\w+)\<close>, the alternatives in the order of the
  source.
\<close>

definition exportPattern :: regex where
  "exportPattern =
     Seq (Lit ''export'')
    (Seq (Plus (Class is_space))
    (Seq (Alt (Lit ''const'')
         (Alt (Lit ''let'')
         (Alt (Lit ''var'')
         (Alt (Lit ''class'')
         (Alt (Lit ''interface'')
         (Alt (Lit ''type'')
         (Alt (Lit ''enum'')
         (Alt (Lit ''default async function'')
         (Alt (Lit ''default function'')
         (Alt (Lit ''function'')
              (Lit ''default'')))))))))))
    (Seq (Plus (Class is_space))
         (Plus (Class is_word)))))"

text \<open>
  \<open>statement.split(' ')\<close> cuts the text at every space character and keeps the empty
  pieces; its result is never empty. \<open>at\<close> counts a negative index from the end and
  gives \<open>undefined\<close> (here \<open>None\<close>) outside the array.
\<close>

fun split_from :: "char \<Rightarrow> string \<Rightarrow> string \<Rightarrow> string list" where
  "split_from sep piece [] = [piece]"
| "split_from sep piece (c # cs) =
     (if c = sep then piece # split_from sep [] cs else split_from sep (piece @ [c]) cs)"

definition str_split :: "char \<Rightarrow> string \<Rightarrow> string list" where
  "str_split sep s = split_from sep [] s"

definition at :: "'a list \<Rightarrow> int \<Rightarrow> 'a option" where
  "at xs i =
     (if 0 \<le> i \<and> i < int (length xs) then Some (xs ! nat i)
      else if i < 0 \<and> - i \<le> int (length xs) then Some (xs ! nat (int (length xs) + i))
      else None)"

text \<open>
  The names of one file (lines 56 to 71): the last piece of every match, unless it is
  \<open>undefined\<close> or the empty string.
\<close>

definition exportsOf :: "string \<Rightarrow> string list" where
  "exportsOf text =
     (let exportsStatements = match_g exportPattern text;
          validMatches = (case exportsStatements of None \<Rightarrow> [] | Some ms \<Rightarrow> ms)
      in foldl (\<lambda>list statement.
                  let split = str_split CHR '' '' statement
                  in if length split = 0 then list
                     else (case at split (int (length split) - 1) of
                             None \<Rightarrow> list
                           | Some res \<Rightarrow> if res = [] then list else list @ [res]))
           [] validMatches)"

text \<open>
  \<open>getExports\<close> reads the files in order and pushes one new object for each. The file
  system is a map from paths to texts; a path it does not hold makes \<open>readFile\<close> fail,
  and the failure ends the run. The new object is stored at the first reference the array
  does not hold yet.
\<close>

datatype error = ReadError string

fun getExports_loop :: "(string \<rightharpoonup> string) \<Rightarrow> string list \<Rightarrow> heap \<Rightarrow> ref list
    \<Rightarrow> error + heap \<times> ref list" where
  "getExports_loop fs [] h fileExports = Inr (h, fileExports)"
| "getExports_loop fs (file # files) h fileExports =
     (case fs file of
        None \<Rightarrow> Inl (ReadError file)
      | Some text \<Rightarrow>
          getExports_loop fs files
            (h(length fileExports :=
                 \<lparr>path = file, contents = text, exports = exportsOf text\<rparr>))
            (fileExports @ [length fileExports]))"

definition getExports :: "(string \<rightharpoonup> string) \<Rightarrow> string list \<Rightarrow> heap
    \<Rightarrow> error + heap \<times> ref list" where
  "getExports fs files h = getExports_loop fs files h []"

section \<open>Notions used in the statements\<close>

text \<open>
  The names of a list in the order of their first appearance, each name once.
\<close>

fun first_occ :: "'a list \<Rightarrow> 'a list" where
  "first_occ [] = []"
| "first_occ (x # xs) = x # filter (\<lambda>y. y \<noteq> x) (first_occ xs)"

text \<open>
  \<open>deadNames\<close> lists the names that the last loop pushes for one file: the keys of the
  counters, in the order of \<open>entries\<close>, whose count is not above 0. \<open>importers\<close> lists
  the files other than file A in which the detector finds the name, and \<open>entry_of\<close> reads
  the array of a file in the report, empty when the file has none.
\<close>

definition deadNames :: "counts \<Rightarrow> string list" where
  "deadNames importCounts = map fst (filter (\<lambda>p. \<not> snd p > 0) (entries importCounts))"

definition importers :: "heap \<Rightarrow> ref list \<Rightarrow> ref \<Rightarrow> string \<Rightarrow> ref list" where
  "importers h files a n = filter (\<lambda>b. b \<noteq> a \<and> isImported n (contents (h b))) files"

definition entry_of :: "report \<Rightarrow> ref \<Rightarrow> string list" where
  "entry_of r a = (case map_of r a of None \<Rightarrow> [] | Some existingEntry \<Rightarrow> existingEntry)"

text \<open>The characters that can occur in a text matched by a pattern.\<close>

primrec alphabet :: "regex \<Rightarrow> char set" where
  "alphabet (Class p) = {c. p c}"
| "alphabet (Lit w) = set w"
| "alphabet (Seq a b) = alphabet a \<union> alphabet b"
| "alphabet (Alt a b) = alphabet a \<union> alphabet b"
| "alphabet (Plus a) = alphabet a"

text \<open>
  Four small source trees, as \<open>getExports\<close> loads them. \<open>demo_heap\<close>: \<open>a.ts\<close> exports an
  unused function \<open>foo\<close> and a constant \<open>bar\<close> that \<open>b.ts\<close> imports. \<open>overload_heap\<close>:
  \<open>a.ts\<close> declares the exported function \<open>foo\<close> twice (an overload signature and the
  implementation) and \<open>b.ts\<close> imports it. \<open>numbered_heap\<close>: a single file that exports
  the constant \<open>b\<close> and then, by \<open>export default 1\<close>, the name \<open>1\<close>. \<open>self_heap\<close>:
  \<open>a.ts\<close> imports its own export \<open>foo\<close>, and \<open>b.ts\<close> imports nothing.
\<close>

definition demo_heap :: heap where
  "demo_heap = (\<lambda>r.
     if r = 0
     then \<lparr>path = ''a.ts'',
           contents = ''export function foo() {}'' @ [CHR 0x0A] @ ''export const bar = 1;'',
           exports = [''foo'', ''bar'']\<rparr>
     else \<lparr>path = ''b.ts'', contents = ''import { bar } from './a';'', exports = []\<rparr>)"

definition overload_heap :: heap where
  "overload_heap = (\<lambda>r.
     if r = 0
     then \<lparr>path = ''a.ts'',
           contents = ''export function foo(x: string): void;'' @ [CHR 0x0A]
             @ ''export function foo(x: any) {}'',
           exports = [''foo'', ''foo'']\<rparr>
     else \<lparr>path = ''b.ts'', contents = ''import { foo } from './a';'', exports = []\<rparr>)"

definition numbered_heap :: heap where
  "numbered_heap = (\<lambda>r.
     \<lparr>path = ''a.ts'',
      contents = ''export const b = 2;'' @ [CHR 0x0A] @ ''export default 1;'',
      exports = [''b'', ''1'']\<rparr>)"

definition self_heap :: heap where
  "self_heap = (\<lambda>r.
     if r = 0
     then \<lparr>path = ''a.ts'',
           contents = ''import { foo } from './a';'' @ [CHR 0x0A] @ ''export const foo = 1;'',
           exports = [''foo'']\<rparr>
     else \<lparr>path = ''b.ts'', contents = ''const x = 1;'', exports = []\<rparr>)"

section \<open>The order of the keys of an object\<close>

lemma set_first_occ [simp]: "set (first_occ xs) = set xs"
  by (induction xs) auto

lemma distinct_first_occ [simp]: "distinct (first_occ xs)"
  by (induction xs) auto

lemma first_occ_snoc:
  "first_occ (xs @ [e]) = (if e \<in> set xs then first_occ xs else first_occ xs @ [e])"
  by (induction xs) auto

lemma sort_key_sorted_snoc: "sort_key f (sort_key f xs @ [e]) = sort_key f (xs @ [e])"
proof (rule properties_for_sort_key)
  show "mset (sort_key f (xs @ [e])) = mset (sort_key f xs @ [e])" by simp
next
  fix k
  have "filter (\<lambda>x. f x = f k) (sort_key f (xs @ [e])) = filter (\<lambda>x. f x = f k) (sort_key f xs @ [e])"
    by (simp add: sort_key_stable del: sort_key_simps)
  then show "filter (\<lambda>x. f k = f x) (sort_key f (xs @ [e])) = filter (\<lambda>x. f k = f x) (sort_key f xs @ [e])"
    by (simp add: eq_commute [of "f k"])
next
  show "sorted (map f (sort_key f (xs @ [e])))" by (rule sorted_sort_key)
qed

lemma sort_key_idem: "sort_key f (sort_key f xs) = sort_key f xs"
  by (simp add: sort_key_id_if_sorted)

lemma filter_index_key_order:
  "filter is_array_index (key_order ks) = sort_key index_value (filter is_array_index ks)"
  by (simp add: key_order_def filter_sort)

lemma filter_other_key_order:
  "filter (\<lambda>k. \<not> is_array_index k) (key_order ks) = filter (\<lambda>k. \<not> is_array_index k) ks"
  by (simp add: key_order_def filter_sort)

lemma key_order_idem: "key_order (key_order ks) = key_order ks"
  using filter_index_key_order [of ks] filter_other_key_order [of ks]
  by (simp add: key_order_def [of "key_order ks"] sort_key_idem) (simp add: key_order_def)

lemma key_order_snoc: "key_order (key_order ks @ [e]) = key_order (ks @ [e])"
proof (cases "is_array_index e")
  case True
  then show ?thesis
    using filter_index_key_order [of ks] filter_other_key_order [of ks]
    by (simp add: key_order_def [of "key_order ks @ [e]"] key_order_def [of "ks @ [e]"]
        sort_key_sorted_snoc del: sort_key_simps)
next
  case False
  then show ?thesis
    using filter_index_key_order [of ks] filter_other_key_order [of ks]
    by (simp add: key_order_def [of "key_order ks @ [e]"] key_order_def [of "ks @ [e]"]
        sort_key_idem)
qed

lemma set_key_order [simp]: "set (key_order ks) = set ks"
  by (auto simp: key_order_def)

lemma mset_key_order: "mset (key_order ks) = mset ks"
  by (simp add: key_order_def)

lemma distinct_key_order [simp]: "distinct (key_order ks) = distinct ks"
  by (rule mset_eq_imp_distinct_iff) (rule mset_key_order)

lemma key_order_no_index: "\<forall>k\<in>set ks. \<not> is_array_index k \<Longrightarrow> key_order ks = ks"
  by (simp add: key_order_def filter_empty_conv [THEN iffD2])

lemma map_fst_insort_key:
  "map fst (insort_key (\<lambda>p. g (fst p)) x ys) = insort_key g (fst x) (map fst ys)"
  by (induction ys) auto

lemma map_fst_sort_key: "map fst (sort_key (\<lambda>p. g (fst p)) xs) = sort_key g (map fst xs)"
  by (induction xs) (auto simp: map_fst_insort_key)

lemma map_fst_entries: "map fst (entries obj) = key_order (map fst obj)"
  by (simp add: entries_def key_order_def map_fst_sort_key filter_map comp_def)

lemma mset_entries: "mset (entries obj) = mset obj"
  by (simp add: entries_def)

lemma set_entries [simp]: "set (entries obj) = set obj"
  by (auto simp: entries_def)

lemma map_of_entries: "distinct (map fst obj) \<Longrightarrow> map_of (entries obj) = map_of obj"
  by (subst map_of_inject_set) (simp_all add: map_fst_entries)

section \<open>The counters of one file\<close>

lemma set_update_subset: "set (AList.update k v al) \<subseteq> insert (k, v) (set al)"
  by (induction al) auto

lemma initCounts_snoc: "initCounts (xs @ [e]) = AList.update e 0 (entries (initCounts xs))"
  by (simp add: initCounts_def)

lemma initCounts_keys:
  "key_order (map fst (initCounts exps)) = key_order (first_occ exps)
   \<and> set (map fst (initCounts exps)) = set exps
   \<and> distinct (map fst (initCounts exps))
   \<and> snd ` set (initCounts exps) \<subseteq> {0}"
proof (induction exps rule: rev_induct)
  case Nil
  show ?case by (simp add: initCounts_def)
next
  case (snoc e xs)
  let ?K = "map fst (initCounts xs)"
  from snoc have zero: "snd ` set (initCounts xs) \<subseteq> {0}" by simp
  have keys: "map fst (initCounts (xs @ [e]))
      = (if e \<in> set xs then key_order ?K else key_order ?K @ [e])"
    using snoc by (simp add: initCounts_snoc update_keys map_fst_entries)
  have "key_order (map fst (initCounts (xs @ [e]))) = key_order (first_occ (xs @ [e]))"
  proof (cases "e \<in> set xs")
    case True
    with keys snoc show ?thesis by (simp add: key_order_idem first_occ_snoc)
  next
    case False
    with keys have "key_order (map fst (initCounts (xs @ [e]))) = key_order (?K @ [e])"
      by (simp add: key_order_snoc)
    also have "\<dots> = key_order (key_order ?K @ [e])" by (simp add: key_order_snoc)
    also have "\<dots> = key_order (key_order (first_occ xs) @ [e])" using snoc by simp
    also have "\<dots> = key_order (first_occ xs @ [e])" by (simp add: key_order_snoc)
    finally show ?thesis using False by (simp add: first_occ_snoc)
  qed
  moreover have "set (map fst (initCounts (xs @ [e]))) = set (xs @ [e])"
    using keys snoc by auto
  moreover have "distinct (map fst (initCounts (xs @ [e])))"
    using snoc by (simp add: initCounts_snoc distinct_update map_fst_entries)
  moreover have "snd ` set (initCounts (xs @ [e])) \<subseteq> {0}"
  proof
    fix v assume "v \<in> snd ` set (initCounts (xs @ [e]))"
    then obtain k where "(k, v) \<in> set (AList.update e 0 (entries (initCounts xs)))"
      unfolding initCounts_snoc by force
    with set_update_subset [of e 0 "entries (initCounts xs)"]
    have "(k, v) = (e, 0) \<or> (k, v) \<in> set (initCounts xs)" by auto
    then show "v \<in> {0}"
    proof
      assume "(k, v) = (e, 0)" then show ?thesis by simp
    next
      assume "(k, v) \<in> set (initCounts xs)"
      then have "v \<in> snd ` set (initCounts xs)" by force
      with zero show ?thesis by (rule subsetD)
    qed
  qed
  ultimately show ?case by simp
qed

lemma map_of_initCounts:
  "map_of (initCounts exps) n = (if n \<in> set exps then Some 0 else None)"
proof (cases "n \<in> set exps")
  case True
  from initCounts_keys [of exps] have k: "fst ` set (initCounts exps) = set exps"
    and d: "distinct (map fst (initCounts exps))" and z: "snd ` set (initCounts exps) \<subseteq> {0}"
    by simp_all
  from True k have "n \<in> fst ` set (initCounts exps)" by simp
  then obtain p where p: "p \<in> set (initCounts exps)" "fst p = n" by (auto simp: image_iff)
  with z have "snd p = 0" by auto
  with p have "(n, 0) \<in> set (initCounts exps)" by (metis prod.collapse)
  with d have "map_of (initCounts exps) n = Some 0" by simp
  with True show ?thesis by simp
next
  case False
  with initCounts_keys [of exps] have "n \<notin> fst ` set (initCounts exps)" by simp
  with False show ?thesis by (simp add: map_of_eq_None_iff)
qed

lemma incr_keys: "map fst (incr e m) = map fst m"
proof (cases "map_of m e")
  case None
  then show ?thesis by (simp add: incr_def)
next
  case (Some n)
  then have "(e, n) \<in> set m" by (rule map_of_SomeD)
  then have "e \<in> fst ` set m" by force
  with Some show ?thesis by (simp add: incr_def update_keys)
qed

lemma map_of_incr:
  "map_of (incr e m) n = (if n = e then map_option Suc (map_of m e) else map_of m n)"
  by (cases "map_of m e") (simp_all add: incr_def update_conv')

lemma scanExports_keys: "map fst (scanExports exps c m) = map fst m"
  unfolding scanExports_def by (induction exps arbitrary: m) (simp_all add: incr_keys)

lemma map_of_scanExports:
  "map_of (scanExports exps c m) n
     = map_option (\<lambda>v. v + (if isImported n c then count_list exps n else 0)) (map_of m n)"
  unfolding scanExports_def
proof (induction exps arbitrary: m)
  case Nil
  show ?case by (simp add: option.map_ident)
next
  case (Cons x xs)
  show ?case
    by (simp add: Cons.IH map_of_incr option.map_comp comp_def)
qed

lemma countImports_keys:
  "map fst (countImports h files a) = map fst (initCounts (exports (h a)))"
proof -
  have "map fst (foldl (\<lambda>m b. if a = b then m else scanExports E (contents (h b)) m) m0 files)
      = map fst m0" for E m0
    by (induction files arbitrary: m0) (simp_all add: scanExports_keys)
  then show ?thesis by (simp add: countImports_def)
qed

lemma keys_countImports: "fst ` set (countImports h files a) = set (exports (h a))"
  using initCounts_keys [of "exports (h a)"] countImports_keys [of h files a]
  by (metis list.set_map)

lemma map_of_countImports:
  "map_of (countImports h files a) n
     = (if n \<in> set (exports (h a))
        then Some (length (importers h files a n) * count_list (exports (h a)) n)
        else None)"
proof -
  let ?E = "exports (h a)"
  let ?step = "\<lambda>m b. if a = b then m else scanExports ?E (contents (h b)) m"
  have "map_of (foldl ?step m0 files) n
      = map_option (\<lambda>v. v + length (importers h files a n) * count_list ?E n) (map_of m0 n)"
    for m0
  proof (induction files arbitrary: m0)
    case Nil
    show ?case by (simp add: importers_def option.map_ident)
  next
    case (Cons b bs)
    show ?case
      by (simp add: Cons.IH map_of_scanExports option.map_comp comp_def importers_def
          option.map_ident add.assoc)
  qed
  then show ?thesis by (simp add: countImports_def map_of_initCounts)
qed

lemma count_zero_iff:
  assumes "n \<in> set (exports (h a))"
  shows "map_of (countImports h files a) n = Some 0
     \<longleftrightarrow> (\<forall>b\<in>set files. b \<noteq> a \<longrightarrow> \<not> isImported n (contents (h b)))"
proof -
  from assms have "0 < count_list (exports (h a)) n"
    by (simp add: count_list_0_iff Suc_le_eq [symmetric] not_less_eq_eq [symmetric])
  with assms show ?thesis
    by (auto simp: map_of_countImports importers_def filter_empty_conv)
qed

lemma deadNames_countImports:
  "deadNames (countImports h files a)
     = filter (\<lambda>n. \<forall>b\<in>set files. b \<noteq> a \<longrightarrow> \<not> isImported n (contents (h b)))
         (key_order (first_occ (exports (h a))))"
proof -
  let ?c = "countImports h files a"
  let ?Q = "\<lambda>n. \<forall>b\<in>set files. b \<noteq> a \<longrightarrow> \<not> isImported n (contents (h b))"
  have d: "distinct (map fst ?c)"
    using initCounts_keys [of "exports (h a)"] by (simp add: countImports_keys)
  have k: "fst ` set ?c = set (exports (h a))"
    using initCounts_keys [of "exports (h a)"] countImports_keys [of h files a]
    by (metis list.set_map)
  have "filter (\<lambda>p. \<not> snd p > 0) (entries ?c) = filter (\<lambda>p. ?Q (fst p)) (entries ?c)"
  proof (rule filter_cong [OF refl])
    fix p assume "p \<in> set (entries ?c)"
    then have p: "(fst p, snd p) \<in> set ?c" by simp
    with d have "map_of ?c (fst p) = Some (snd p)" by simp
    moreover from p k have "fst p \<in> set (exports (h a))" by force
    ultimately show "(\<not> snd p > 0) = ?Q (fst p)"
      using count_zero_iff [of "fst p" h a files] by simp
  qed
  then have "deadNames ?c = filter ?Q (map fst (entries ?c))"
    by (simp add: deadNames_def filter_map comp_def)
  also have "map fst (entries ?c) = key_order (first_occ (exports (h a)))"
    using initCounts_keys [of "exports (h a)"] by (simp add: map_fst_entries countImports_keys)
  finally show ?thesis .
qed

lemma set_deadNames_countImports:
  "set (deadNames (countImports h files a))
     = {n \<in> set (exports (h a)). \<forall>b\<in>set files. b \<noteq> a \<longrightarrow> \<not> isImported n (contents (h b))}"
  by (auto simp: deadNames_countImports)

lemma distinct_deadNames_countImports: "distinct (deadNames (countImports h files a))"
  by (simp add: deadNames_countImports)

section \<open>The entries of the report\<close>

lemma update_update: "AList.update k v (AList.update k w al) = AList.update k v al"
  by (induction al) auto

lemma recordDead_eq:
  "recordDead a importCounts r
     = (if deadNames importCounts = [] then r
        else AList.update a (entry_of r a @ deadNames importCounts) r)"
proof -
  let ?step = "\<lambda>report (exp, count).
      if count > 0 then report
      else (case map_of report a of
              Some existingEntry \<Rightarrow> AList.update a (existingEntry @ [exp]) report
            | None \<Rightarrow> AList.update a [exp] report)"
  let ?d = "\<lambda>xs :: (string \<times> nat) list. map fst (filter (\<lambda>p. \<not> snd p > 0) xs)"
  have "foldl ?step r xs
      = (if ?d xs = [] then r else AList.update a (entry_of r a @ ?d xs) r)" for xs
  proof (induction xs arbitrary: r)
    case Nil
    show ?case by simp
  next
    case (Cons x xs)
    obtain exp count where x: "x = (exp, count)" by (cases x)
    show ?case
    proof (cases "count > 0")
      case True
      with x show ?thesis by (simp add: Cons.IH)
    next
      case False
      let ?r = "AList.update a (entry_of r a @ [exp]) r"
      from False x have "foldl ?step r (x # xs) = foldl ?step ?r xs"
        by (simp add: entry_of_def split: option.splits)
      also have "\<dots> = (if ?d xs = [] then ?r else AList.update a (entry_of ?r a @ ?d xs) ?r)"
        by (rule Cons.IH)
      also have "entry_of ?r a = entry_of r a @ [exp]"
        by (simp add: entry_of_def update_conv')
      finally show ?thesis using False x by (simp add: update_update)
    qed
  qed
  then show ?thesis by (simp add: recordDead_def deadNames_def)
qed

lemma map_of_recordDead:
  "map_of (recordDead a importCounts r) b
     = (if a = b \<and> deadNames importCounts \<noteq> []
        then Some (entry_of r a @ deadNames importCounts) else map_of r b)"
  by (simp add: recordDead_eq update_conv')

lemma distinct_recordDead:
  "distinct (map fst r) \<Longrightarrow> distinct (map fst (recordDead a importCounts r))"
  by (simp add: recordDead_eq distinct_update)

lemma map_of_report_fold:
  "map_of (foldl (\<lambda>report a. recordDead a (cnt a) report) rep0 as) b
     = (if count_list as b = 0 \<or> deadNames (cnt b) = [] then map_of rep0 b
        else Some (entry_of rep0 b @ concat (replicate (count_list as b) (deadNames (cnt b)))))"
proof (induction as arbitrary: rep0)
  case Nil
  show ?case by simp
next
  case (Cons a as)
  show ?case
  proof (cases "a = b \<and> deadNames (cnt b) \<noteq> []")
    case True
    then show ?thesis
      by (simp add: Cons.IH map_of_recordDead entry_of_def)
  next
    case False
    then show ?thesis
      by (auto simp: Cons.IH map_of_recordDead entry_of_def)
  qed
qed

lemma distinct_report_fold:
  "distinct (map fst rep0)
     \<Longrightarrow> distinct (map fst (foldl (\<lambda>report a. recordDead a (cnt a) report) rep0 as))"
  by (induction as arbitrary: rep0) (simp_all add: distinct_recordDead)

lemma map_of_report:
  "map_of (getFilesWithDeadExports h files) a
     = (if a \<notin> set files \<or> deadNames (countImports h files a) = [] then None
        else Some (concat (replicate (count_list files a) (deadNames (countImports h files a)))))"
  by (simp add: getFilesWithDeadExports_def map_of_report_fold entry_of_def count_list_0_iff)

lemma distinct_report: "distinct (map fst (getFilesWithDeadExports h files))"
  by (simp add: getFilesWithDeadExports_def distinct_report_fold)

lemma report_entry:
  "(a, ds) \<in> set (getFilesWithDeadExports h files)
     \<longleftrightarrow> map_of (getFilesWithDeadExports h files) a = Some ds"
  using distinct_report [of h files] by simp

lemma report_entry_cases:
  assumes "(a, ds) \<in> set (getFilesWithDeadExports h files)"
  shows "a \<in> set files \<and> deadNames (countImports h files a) \<noteq> []
    \<and> ds = concat (replicate (count_list files a) (deadNames (countImports h files a)))"
  using assms unfolding report_entry map_of_report by (simp split: if_splits)

lemma set_concat_replicate: "0 < k \<Longrightarrow> set (concat (replicate k xs)) = set xs"
  by (induction k) auto

lemma count_list_distinct: "distinct xs \<Longrightarrow> x \<in> set xs \<Longrightarrow> count_list xs x = 1"
  by (induction xs) (auto simp: count_list_0_iff)

lemma set_report_entry:
  assumes "(a, ds) \<in> set (getFilesWithDeadExports h files)"
  shows "set ds = set (deadNames (countImports h files a))"
proof -
  from report_entry_cases [OF assms] have "a \<in> set files"
    and ds: "ds = concat (replicate (count_list files a) (deadNames (countImports h files a)))"
    by simp_all
  then have "0 < count_list files a" by (simp add: count_list_0_iff zero_less_iff_neq_zero)
  with ds show ?thesis by (simp add: set_concat_replicate)
qed

lemma report_entry_distinct_files:
  assumes "distinct files" "(a, ds) \<in> set (getFilesWithDeadExports h files)"
  shows "ds = deadNames (countImports h files a)"
  using report_entry_cases [OF assms(2)] assms(1) by (simp add: count_list_distinct)

section \<open>A braced import of a name is detected\<close>

lemma isImported_iff:
  "isImported n text \<longleftrightarrow> (\<exists>p u t. text = p @ u @ t \<and> u \<in> lang (importPattern n))"
  unfolding isImported_def by (rule exec_iff)

lemma lang_PlusI: "ws \<noteq> [] \<Longrightarrow> set ws \<subseteq> lang a \<Longrightarrow> concat ws \<in> lang (Plus a)"
  by auto

lemma lang_SeqI: "u \<in> lang a \<Longrightarrow> v \<in> lang b \<Longrightarrow> u @ v \<in> lang (Seq a b)"
  by auto

lemma span_in_lang:
  assumes "w \<noteq> []" and "\<forall>c\<in>set w. is_dot c"
  shows "w \<in> lang (Plus (Alt (Class is_dot) (Lit [CHR 0x0A])))"
proof -
  have c: "concat (map (\<lambda>c. [c]) w) = w" by (induction w) auto
  from assms have "map (\<lambda>c. [c]) w \<noteq> []"
    and "set (map (\<lambda>c. [c]) w) \<subseteq> lang (Alt (Class is_dot) (Lit [CHR 0x0A]))"
    by auto
  then have "concat (map (\<lambda>c. [c]) w) \<in> lang (Plus (Alt (Class is_dot) (Lit [CHR 0x0A])))"
    by (rule lang_PlusI)
  then show ?thesis by (simp only: c)
qed

lemma import_statement_in_lang:
  "''import'' @ '' { '' @ n @ '' } '' @ ''from'' @ '' '' \<in> lang (importPattern n)"
proof -
  have 1: "'' { '' \<in> lang (Plus (Alt (Class is_dot) (Lit [CHR 0x0A])))"
    by (rule span_in_lang) (simp_all add: is_dot_def)
  have "concat [n] \<in> lang (Plus (Lit n))" by (rule lang_PlusI) simp_all
  then have 2: "n \<in> lang (Plus (Lit n))" by simp
  have 3: "'' } '' \<in> lang (Plus (Alt (Class is_dot) (Lit [CHR 0x0A])))"
    by (rule span_in_lang) (simp_all add: is_dot_def)
  have "concat ['' ''] \<in> lang (Plus (Class is_dot))"
    by (rule lang_PlusI) (simp_all add: is_dot_def)
  then have 4: "'' '' \<in> lang (Plus (Class is_dot))" by simp
  have lit: "w \<in> lang (Lit w)" for w by simp
  show ?thesis unfolding importPattern_def
    by (rule lang_SeqI [OF lit lang_SeqI [OF 1 lang_SeqI [OF 2 lang_SeqI [OF 3 lang_SeqI [OF lit 4]]]]])
qed

section \<open>The names and the file list of \<open>getExports\<close>\<close>

text \<open>
  Every name \<open>getExports\<close> yields is a part of a match of its pattern, so it is made of
  letters, digits, underscores and white space and has no pattern syntax character. The
  file list it returns holds each new object once.
\<close>

lemma lang_alphabet: "w \<in> lang r \<Longrightarrow> set w \<subseteq> alphabet r"
proof (induction r arbitrary: w)
  case (Plus a)
  then obtain ws where "w = concat ws" "set ws \<subseteq> lang a" by auto
  with Plus.IH show ?case by auto
next
  case (Seq a b)
  then obtain u v where "w = u @ v" "u \<in> lang a" "v \<in> lang b" by auto
  with Seq.IH(1) [of u] Seq.IH(2) [of v] show ?case by auto
next
  case (Alt a b)
  with Alt.IH(1) [of w] Alt.IH(2) [of w] show ?case by auto
qed auto

lemma exec_lang: "exec r s = Some (m, t) \<Longrightarrow> m \<in> lang r"
proof (induction s)
  case Nil
  then obtain t' where "mt r [] Some = Some t'" "m = []" by (auto split: option.splits)
  with mt_sound [of r "[]" Some t'] show ?case by auto
next
  case (Cons c cs)
  show ?case
  proof (cases "mt r (c # cs) Some")
    case None
    with Cons show ?thesis by simp
  next
    case (Some t')
    from mt_sound [OF this] obtain u where u: "c # cs = u @ t'" "u \<in> lang r" by auto
    from Some Cons.prems have "m = take (length (c # cs) - length t') (c # cs)" by auto
    also have "\<dots> = u" by (simp only: u(1)) simp
    finally show ?thesis using u(2) by simp
  qed
qed

lemma match_all_lang: "m \<in> set (match_all r s) \<Longrightarrow> m \<in> lang r"
proof (induction r s rule: match_all.induct)
  case (1 r s)
  show ?case
  proof (cases "exec r s")
    case None
    with "1.prems" show ?thesis by (simp add: match_all.simps)
  next
    case (Some p)
    obtain m' t where p: "p = (m', t)" by (cases p)
    from Some p have m': "m' \<in> lang r" by (auto dest: exec_lang)
    show ?thesis
    proof (cases "m' = []")
      case True
      show ?thesis
      proof (cases t)
        case Nil
        with "1.prems" Some p True m' show ?thesis by (simp add: match_all.simps [of r s])
      next
        case (Cons c t')
        with "1.prems" Some p True have "m = m' \<or> m \<in> set (match_all r t')"
          by (simp add: match_all.simps [of r s])
        with m' "1.IH"(1) [OF Some p [symmetric] True Cons] show ?thesis by blast
      qed
    next
      case False
      with "1.prems" Some p have "m = m' \<or> m \<in> set (match_all r t)"
        by (simp add: match_all.simps [of r s])
      with m' "1.IH"(2) [OF Some p [symmetric] False] show ?thesis by blast
    qed
  qed
qed

lemma split_from_chars:
  "p \<in> set (split_from sep piece s) \<Longrightarrow> set p \<subseteq> set piece \<union> set s"
  by (induction s arbitrary: piece) (fastforce split: if_splits)+

lemma at_mem: "at xs i = Some x \<Longrightarrow> x \<in> set xs"
  by (auto simp: at_def split: if_splits)

lemma exportsOf_chars:
  assumes "n \<in> set (exportsOf text)"
  shows "\<exists>m\<in>set (match_all exportPattern text). set n \<subseteq> set m"
proof -
  let ?f = "\<lambda>list statement.
      let split = str_split CHR '' '' statement
      in if length split = 0 then list
         else (case at split (int (length split) - 1) of
                 None \<Rightarrow> list
               | Some res \<Rightarrow> if res = [] then list else list @ [res])"
  have inv: "n \<in> set (foldl ?f acc ms) \<Longrightarrow> n \<in> set acc \<or> (\<exists>m\<in>set ms. set n \<subseteq> set m)"
    for acc ms
  proof (induction ms arbitrary: acc)
    case Nil
    then show ?case by simp
  next
    case (Cons m ms)
    from Cons.IH [OF Cons.prems [simplified foldl_Cons]]
    have "n \<in> set (?f acc m) \<or> (\<exists>m\<in>set ms. set n \<subseteq> set m)" .
    moreover have "set n \<subseteq> set m" if "n \<in> set (?f acc m)" "n \<notin> set acc"
    proof -
      from that obtain i where "at (str_split CHR '' '' m) i = Some n"
        by (auto simp: Let_def split: if_splits option.splits)
      then have "n \<in> set (split_from CHR '' '' [] m)" by (auto dest: at_mem simp: str_split_def)
      from split_from_chars [OF this] show ?thesis by simp
    qed
    ultimately show ?case by auto
  qed
  have "match_g exportPattern text = None \<Longrightarrow> match_all exportPattern text = []"
    by (simp add: match_g_def split: list.splits)
  moreover have "match_g exportPattern text = Some ms \<Longrightarrow> match_all exportPattern text = ms"
    for ms by (auto simp: match_g_def split: list.splits)
  ultimately have "exportsOf text = foldl ?f [] (match_all exportPattern text)"
    by (cases "match_g exportPattern text") (simp_all add: exportsOf_def)
  with assms inv [of "[]" "match_all exportPattern text"] show ?thesis by simp
qed

lemma alphabet_exportPattern:
  "c \<in> alphabet exportPattern \<Longrightarrow> c \<notin> set (CHR 0x5C # ''^$.*+?()[]{}|'')"
  by (auto simp: exportPattern_def is_space_def is_word_def)

lemma exportsOf_plain: "n \<in> set (exportsOf text) \<Longrightarrow> plain_name n"
proof -
  assume "n \<in> set (exportsOf text)"
  from exportsOf_chars [OF this] obtain m where
    m: "m \<in> set (match_all exportPattern text)" "set n \<subseteq> set m" by blast
  from m(1) have "set m \<subseteq> alphabet exportPattern" by (intro lang_alphabet match_all_lang)
  with m(2) have "\<forall>c\<in>set n. c \<in> alphabet exportPattern" by blast
  then show ?thesis unfolding plain_name_def list_all_iff
    using alphabet_exportPattern by blast
qed

lemma getExports_loop_result:
  assumes "getExports_loop fs paths h acc = Inr (h', refs)"
    and "acc = [0..<length acc]"
    and "\<forall>r\<in>set acc. exports (h r) = exportsOf (contents (h r))"
  shows "refs = [0..<length acc + length paths]
    \<and> (\<forall>r\<in>set refs. exports (h' r) = exportsOf (contents (h' r)))"
  using assms
proof (induction paths arbitrary: h acc)
  case Nil
  then show ?case by simp
next
  case (Cons p ps)
  from Cons.prems(1) obtain body where t: "fs p = Some body"
    by (cases "fs p") simp_all
  let ?h = "h(length acc := \<lparr>path = p, contents = body, exports = exportsOf body\<rparr>)"
  let ?acc = "acc @ [length acc]"
  from Cons.prems(1) t have 1: "getExports_loop fs ps ?h ?acc = Inr (h', refs)" by simp
  from Cons.prems(2) have 2: "?acc = [0..<length ?acc]" by simp
  from Cons.prems(2) have "length acc \<notin> set acc"
    by (metis atLeastLessThan_iff less_irrefl set_upt)
  with Cons.prems(3) have 3: "\<forall>r\<in>set ?acc. exports (?h r) = exportsOf (contents (?h r))"
    by auto
  from Cons.IH [OF 1 2 3] show ?case by simp
qed

lemma getExports_result:
  assumes "getExports fs paths h = Inr (h', refs)"
  shows "refs = [0..<length paths] \<and> distinct refs
    \<and> (\<forall>r\<in>set refs. exports (h' r) = exportsOf (contents (h' r)))
    \<and> (\<forall>r\<in>set refs. \<forall>n\<in>set (exports (h' r)). plain_name n)"
proof -
  from assms have "getExports_loop fs paths h [] = Inr (h', refs)" by (simp add: getExports_def)
  from getExports_loop_result [OF this] have r: "refs = [0..<length paths]"
    and e: "\<forall>r\<in>set refs. exports (h' r) = exportsOf (contents (h' r))" by simp_all
  from e have "\<forall>r\<in>set refs. \<forall>n\<in>set (exports (h' r)). plain_name n"
    by (auto intro: exportsOf_plain)
  with r e show ?thesis by simp
qed

lemma demo_heap_exports:
  "exportsOf (contents (demo_heap 0)) = exports (demo_heap 0)
   \<and> exportsOf (contents (demo_heap 1)) = exports (demo_heap 1)"
  by code_simp

lemma self_heap_exports:
  "exportsOf (contents (self_heap 0)) = exports (self_heap 0)
   \<and> exportsOf (contents (self_heap 1)) = exports (self_heap 1)"
  by code_simp

lemma overload_heap_exports:
  "exportsOf (contents (overload_heap 0)) = exports (overload_heap 0)
   \<and> exportsOf (contents (overload_heap 1)) = exports (overload_heap 1)"
  by code_simp

lemma numbered_heap_exports:
  "exportsOf (contents (numbered_heap 0)) = exports (numbered_heap 0)"
  by code_simp

section \<open>Properties of the Import Detector\<close>

text \<open>
  C1. Let \<open>a\<close> and \<open>b\<close> be two different files of the list and \<open>n\<close> a name in the
  exports of \<open>a\<close>, a name as \<open>getExports\<close> yields them (no pattern syntax character).
  If the text of \<open>b\<close> contains the one-line statement \<^verbatim>\<open>import { n } from ...\<close>, with
  nothing else between \<open>import\<close> and \<open>from\<close>, then \<open>isImported n\<close> answers \<open>true\<close> on the
  text of \<open>b\<close>, and \<open>n\<close> is not in the list of dead exports that the report of
  \<open>getFilesWithDeadExports\<close> holds for \<open>a\<close>.
\<close>

theorem import_detected:
  assumes "a \<in> set files" and "b \<in> set files" and "a \<noteq> b"
    and "n \<in> set (exports (h a))" and "plain_name n"
    and "contents (h b) = pre @ ''import { '' @ n @ '' } from '' @ rest"
  shows "isImported n (contents (h b))
    \<and> (\<forall>ds. (a, ds) \<in> set (getFilesWithDeadExports h files) \<longrightarrow> n \<notin> set ds)"
proof -
  have "contents (h b) = pre @ (''import'' @ '' { '' @ n @ '' } '' @ ''from'' @ '' '') @ rest"
    by (simp add: assms(6))
  with import_statement_in_lang [of n] have imp: "isImported n (contents (h b))"
    unfolding isImported_iff by blast
  have "n \<notin> set ds" if "(a, ds) \<in> set (getFilesWithDeadExports h files)" for ds
  proof
    assume "n \<in> set ds"
    with set_report_entry [OF that] have "n \<in> set (deadNames (countImports h files a))" by simp
    with assms(2,3) have "\<not> isImported n (contents (h b))"
      by (auto simp: set_deadNames_countImports)
    with imp show False by contradiction
  qed
  with imp show ?thesis by blast
qed

text \<open>
  The theorem on \<open>demo_heap\<close>: \<open>b.ts\<close> imports \<open>bar\<close> from \<open>a.ts\<close>, whose entry in the
  report is \<open>foo\<close> alone.
\<close>

theorem import_detected_witness:
  "(0::nat) \<in> set [0, 1] \<and> (1::nat) \<in> set [0, 1] \<and> (0::nat) \<noteq> 1
   \<and> ''bar'' \<in> set (exports (demo_heap 0)) \<and> plain_name ''bar''
   \<and> contents (demo_heap 1) = [] @ ''import { '' @ ''bar'' @ '' } from '' @ '''./a';''
   \<and> isImported ''bar'' (contents (demo_heap 1))
   \<and> (0, [''foo'']) \<in> set (getFilesWithDeadExports demo_heap [0, 1])
   \<and> ''bar'' \<notin> set [''foo'']"
proof -
  have 1: "(0::nat) \<in> set [0, 1]" and 2: "(1::nat) \<in> set [0, 1]" and 3: "(0::nat) \<noteq> 1"
    by simp_all
  have 4: "''bar'' \<in> set (exports (demo_heap 0))" by code_simp
  have 5: "plain_name ''bar''" by code_simp
  have 6: "contents (demo_heap 1) = [] @ ''import { '' @ ''bar'' @ '' } from '' @ '''./a';''"
    by code_simp
  have r: "(0, [''foo'']) \<in> set (getFilesWithDeadExports demo_heap [0, 1])" by code_simp
  from import_detected [OF 1 2 3 4 5 6]
  have c: "isImported ''bar'' (contents (demo_heap 1))"
    and d: "\<And>ds. (0, ds) \<in> set (getFilesWithDeadExports demo_heap [0, 1])
      \<Longrightarrow> ''bar'' \<notin> set ds"
    by blast+
  from d [OF r] have "''bar'' \<notin> set [''foo'']" .
  with 1 2 3 4 5 6 c r show ?thesis by blast
qed

text \<open>
  C4. The detector puts no token boundary around the name: for the exported name \<open>Foo\<close> it
  answers \<open>true\<close> on the text \<^verbatim>\<open>import useFoo from 'x'\<close>, where \<open>Foo\<close> is only a part of the
  longer identifier \<open>useFoo\<close>.
\<close>

theorem isImported_inside_longer_identifier:
  "isImported ''Foo'' (''import useFoo from 'x'' @ [CHR 0x27]) = True"
  by code_simp

text \<open>
  C5. Detection spans statements and lines. In the three-line text
  \<^verbatim>\<open>import A from 'x';\<close> / \<^verbatim>\<open>const target = 1;\<close> / \<^verbatim>\<open>import B from 'y';\<close>
  the import of the unrelated name \<open>A\<close> comes first, the name \<open>target\<close> occurs in the code
  of the second line, and a \<open>from\<close> follows on the third: the detector answers \<open>true\<close> for
  \<open>target\<close> on the whole text, and \<open>false\<close> on each of its lines alone, so no single
  statement of the text imports the name.
\<close>

theorem isImported_spans_statements:
  "isImported ''target''
     (''import A from 'x';'' @ [CHR 0x0A] @ ''const target = 1;'' @ [CHR 0x0A]
        @ ''import B from 'y';'') = True
   \<and> isImported ''target'' ''import A from 'x';'' = False
   \<and> isImported ''target'' ''const target = 1;'' = False
   \<and> isImported ''target'' ''import B from 'y';'' = False"
  by code_simp

section \<open>Properties of the Export Extractor\<close>

text \<open>
  C3. An export whose declaration keyword follows \<open>async\<close> without \<open>default\<close> should be
  recognised, so that \<^verbatim>\<open>export async function foo() {}\<close> yields the name \<open>foo\<close>. The code
  yields no name at all for this text: after \<open>export\<close> its pattern accepts \<open>async\<close> only
  inside the alternative \<open>default async function\<close>. The same declaration with \<open>default\<close>,
  or without \<open>async\<close>, yields \<open>foo\<close>.
\<close>

theorem exportsOf_async_function:
  "exportsOf ''export async function foo() {}'' = []
   \<and> exportsOf ''export default async function foo() {}'' = [''foo'']
   \<and> exportsOf ''export function foo() {}'' = [''foo'']"
  by code_simp

text \<open>
  C8. The name of a match should be the identifier after the keywords, whatever white
  space separates the tokens. The pattern accepts any white space between the tokens, but
  the name is cut from the match at space characters only: with a tab before the
  identifier the name of \<^verbatim>\<open>export const<TAB>foo = 1\<close> is \<^verbatim>\<open>const<TAB>foo\<close>, with line feeds
  between the tokens it is the whole match, and with one or several spaces it is the
  identifier \<open>foo\<close>.
\<close>

theorem exportsOf_tab_before_identifier:
  "exportsOf (''export const'' @ [CHR 0x09] @ ''foo = 1'') = [''const'' @ [CHR 0x09] @ ''foo'']
   \<and> exportsOf (''export'' @ [CHR 0x0A] @ ''const'' @ [CHR 0x0A] @ ''foo = 1'')
       = [''export'' @ [CHR 0x0A] @ ''const'' @ [CHR 0x0A] @ ''foo'']
   \<and> exportsOf ''export  const   foo = 1'' = [''foo'']"
  by code_simp

section \<open>Properties of the Cross-Reference Engine\<close>

text \<open>
  C2, as the code has it. Scanning one other file \<open>b\<close> raises the counter of a name \<open>n\<close>
  of file \<open>a\<close> by the number of times \<open>n\<close> occurs in the exports of \<open>a\<close> when the
  detector finds \<open>n\<close> in the text of \<open>b\<close>, and leaves it as it is otherwise. So it is
  raised by at most one for each occurrence of the name in the exports, however many
  times the name could be matched in the text of \<open>b\<close>; it is raised by at most one
  when the name occurs once in the exports.
\<close>

theorem counter_step:
  assumes "n \<in> set (exports (h a))" and "a \<noteq> b"
  shows "\<exists>c. map_of (countImports h bs a) n = Some c
    \<and> map_of (countImports h (bs @ [b]) a) n
        = Some (c + (if isImported n (contents (h b)) then count_list (exports (h a)) n else 0))"
  using assms by (simp add: map_of_countImports importers_def)

text \<open>
  The theorem on \<open>overload_heap\<close>: \<open>foo\<close> occurs twice in the exports of \<open>a.ts\<close>, and
  scanning \<open>b.ts\<close> takes its counter from 0 to 2.
\<close>

theorem counter_step_witness:
  "''foo'' \<in> set (exports (overload_heap 0)) \<and> (0::nat) \<noteq> 1
   \<and> isImported ''foo'' (contents (overload_heap 1))
   \<and> count_list (exports (overload_heap 0)) ''foo'' = 2
   \<and> map_of (countImports overload_heap [] 0) ''foo'' = Some 0
   \<and> map_of (countImports overload_heap ([] @ [1]) 0) ''foo'' = Some (0 + 2)"
proof -
  have 1: "''foo'' \<in> set (exports (overload_heap 0))" by code_simp
  have 2: "(0::nat) \<noteq> 1" by simp
  have i: "isImported ''foo'' (contents (overload_heap 1))" by code_simp
  have n: "count_list (exports (overload_heap 0)) ''foo'' = 2" by code_simp
  have z: "map_of (countImports overload_heap [] 0) ''foo'' = Some 0" by code_simp
  from counter_step [of "''foo''" overload_heap 0 1 "[]", OF 1 2] z i n
  have "map_of (countImports overload_heap ([] @ [1]) 0) ''foo'' = Some (0 + 2)" by simp
  with 1 2 i n z show ?thesis by blast
qed

text \<open>
  C2 as stated, at most one for each scanned file even when the name occurs more than
  once in the exports, fails on \<open>overload_heap\<close>: the two declarations of \<open>foo\<close> are what
  \<open>getExports\<close> extracts from \<open>a.ts\<close>, and the one file \<open>b.ts\<close> raises the counter of
  \<open>foo\<close> from 0 to 2.
\<close>

theorem counter_twice_counterexample:
  "exportsOf (contents (overload_heap 0)) = [''foo'', ''foo'']
   \<and> exports (overload_heap 0) = [''foo'', ''foo'']
   \<and> map_of (countImports overload_heap [] 0) ''foo'' = Some 0
   \<and> map_of (countImports overload_heap [1] 0) ''foo'' = Some 2"
  by code_simp

text \<open>
  C6. The engine never tests the exports of a file \<open>a\<close> against the text of \<open>a\<close>. If
  no other file of the list is found to import the export \<open>n\<close> of \<open>a\<close>, then \<open>n\<close> is in
  the dead exports reported for \<open>a\<close>, whether or not \<open>a\<close> imports \<open>n\<close> itself; and the
  counters of \<open>a\<close> do not depend on the text of \<open>a\<close>: they are the same for any other
  text \<open>c\<close> in its place.
\<close>

theorem self_import_not_counted:
  assumes "a \<in> set files" and "n \<in> set (exports (h a))"
    and "\<forall>b\<in>set files. b \<noteq> a \<longrightarrow> \<not> isImported n (contents (h b))"
  shows "(\<exists>ds. (a, ds) \<in> set (getFilesWithDeadExports h files) \<and> n \<in> set ds)
    \<and> countImports (h(a := (h a)\<lparr>contents := c\<rparr>)) files a = countImports h files a"
proof
  from assms(2,3) have n: "n \<in> set (deadNames (countImports h files a))"
    by (simp add: set_deadNames_countImports)
  then have "deadNames (countImports h files a) \<noteq> []" by auto
  with assms(1) obtain ds where ds: "map_of (getFilesWithDeadExports h files) a = Some ds"
    by (simp add: map_of_report)
  then have "(a, ds) \<in> set (getFilesWithDeadExports h files)" by (simp add: report_entry)
  with n set_report_entry [of a ds h files]
  show "\<exists>ds. (a, ds) \<in> set (getFilesWithDeadExports h files) \<and> n \<in> set ds" by auto
next
  let ?h = "h(a := (h a)\<lparr>contents := c\<rparr>)"
  have e: "exports (?h a) = exports (h a)" by simp
  have "b \<noteq> a \<Longrightarrow> contents (?h b) = contents (h b)" for b by simp
  then have "(if a = b then m else scanExports E (contents (?h b)) m)
      = (if a = b then m else scanExports E (contents (h b)) m)" for b m E
    by (cases "a = b") simp_all
  then show "countImports ?h files a = countImports h files a"
    unfolding countImports_def e by simp
qed

text \<open>
  The theorem on \<open>self_heap\<close>: the detector finds \<open>foo\<close> in \<open>a.ts\<close> itself and not in
  \<open>b.ts\<close>, and \<open>foo\<close> is reported dead.
\<close>

theorem self_import_not_counted_witness:
  "(0::nat) \<in> set [0, 1] \<and> ''foo'' \<in> set (exports (self_heap 0))
   \<and> isImported ''foo'' (contents (self_heap 0))
   \<and> \<not> isImported ''foo'' (contents (self_heap 1))
   \<and> (0, [''foo'']) \<in> set (getFilesWithDeadExports self_heap [0, 1])
   \<and> countImports (self_heap(0 := (self_heap 0)\<lparr>contents := ''''\<rparr>)) [0, 1] 0
       = countImports self_heap [0, 1] 0"
proof -
  have 1: "(0::nat) \<in> set [0, 1]" by simp
  have 2: "''foo'' \<in> set (exports (self_heap 0))" by code_simp
  have s: "isImported ''foo'' (contents (self_heap 0))" by code_simp
  have o: "\<not> isImported ''foo'' (contents (self_heap 1))" by code_simp
  then have 3: "\<forall>b\<in>set [0, 1]. b \<noteq> 0 \<longrightarrow> \<not> isImported ''foo'' (contents (self_heap b))"
    by simp
  have r: "(0, [''foo'']) \<in> set (getFilesWithDeadExports self_heap [0, 1])" by code_simp
  from self_import_not_counted [OF 1 2 3, of "''''"]
  have "countImports (self_heap(0 := (self_heap 0)\<lparr>contents := ''''\<rparr>)) [0, 1] 0
      = countImports self_heap [0, 1] 0" by blast
  with 1 2 s o r show ?thesis by blast
qed

text \<open>
  C7, as the code has it. In a file list that holds each file once, the dead exports of
  a reported file \<open>a\<close> are listed in the key order of the counters: the names that are
  array indices (canonical decimal numerals below \<open>2^32 - 1\<close>) first, in ascending
  numeric order, then the other names in the order of their first appearance in the
  exports of \<open>a\<close>. So the dead names that are not array indices are in declaration
  order.
\<close>

theorem dead_names_order:
  assumes "distinct files" and "(a, ds) \<in> set (getFilesWithDeadExports h files)"
  shows "ds = filter (\<lambda>n. n \<in> set ds) (key_order (first_occ (exports (h a))))
    \<and> filter (\<lambda>n. \<not> is_array_index n) ds
        = filter (\<lambda>n. n \<in> set ds \<and> \<not> is_array_index n) (first_occ (exports (h a)))"
proof -
  let ?Q = "\<lambda>n. \<forall>b\<in>set files. b \<noteq> a \<longrightarrow> \<not> isImported n (contents (h b))"
  let ?KO = "key_order (first_occ (exports (h a)))"
  from report_entry_distinct_files [OF assms] have ds: "ds = filter ?Q ?KO"
    by (simp add: deadNames_countImports)
  have "filter (\<lambda>n. n \<in> set (filter ?Q ?KO)) ?KO = filter ?Q ?KO"
    by (rule filter_cong) auto
  with ds have 1: "ds = filter (\<lambda>n. n \<in> set ds) ?KO" by simp
  have "filter (\<lambda>n. \<not> is_array_index n) ds
      = filter (\<lambda>n. n \<in> set ds) (filter (\<lambda>n. \<not> is_array_index n) ?KO)"
    by (subst 1) (simp add: conj_commute)
  also have "\<dots> = filter (\<lambda>n. n \<in> set ds) (filter (\<lambda>n. \<not> is_array_index n) (first_occ (exports (h a))))"
    by (simp only: filter_other_key_order)
  finally show ?thesis using 1 by (simp add: conj_commute)
qed

text \<open>
  The theorem on \<open>numbered_heap\<close>, whose exports are \<open>b\<close> and \<open>1\<close>: both are dead, and
  the report lists \<open>1\<close> before \<open>b\<close>.
\<close>

theorem dead_names_order_witness:
  "distinct [0::nat] \<and> (0, [''1'', ''b'']) \<in> set (getFilesWithDeadExports numbered_heap [0])
   \<and> key_order (first_occ (exports (numbered_heap 0))) = [''1'', ''b'']
   \<and> [''1'', ''b'']
       = filter (\<lambda>n. n \<in> set [''1'', ''b'']) (key_order (first_occ (exports (numbered_heap 0))))
   \<and> filter (\<lambda>n. \<not> is_array_index n) [''1'', ''b'']
       = filter (\<lambda>n. n \<in> set [''1'', ''b''] \<and> \<not> is_array_index n)
           (first_occ (exports (numbered_heap 0)))"
proof -
  have 1: "distinct [0::nat]" by simp
  have 2: "(0, [''1'', ''b'']) \<in> set (getFilesWithDeadExports numbered_heap [0])" by code_simp
  have k: "key_order (first_occ (exports (numbered_heap 0))) = [''1'', ''b'']" by code_simp
  from dead_names_order [OF 1 2] 1 2 k show ?thesis by blast
qed

text \<open>
  C7 as stated, declaration order for every choice of names, fails on \<open>numbered_heap\<close>:
  \<open>getExports\<close> extracts \<open>b\<close> and then \<open>1\<close> from the text, and the report lists the
  dead exports as \<open>1\<close>, \<open>b\<close>.
\<close>

theorem dead_names_order_counterexample:
  "exportsOf (contents (numbered_heap 0)) = [''b'', ''1'']
   \<and> exports (numbered_heap 0) = [''b'', ''1'']
   \<and> first_occ (exports (numbered_heap 0)) = [''b'', ''1'']
   \<and> getFilesWithDeadExports numbered_heap [0] = [(0, [''1'', ''b''])]"
  by code_simp

text \<open>
  C9. Every name in the list of dead exports that the report holds for a file is one of
  the exports of that file.
\<close>

theorem dead_names_are_exports:
  assumes "(a, ds) \<in> set (getFilesWithDeadExports h files)" and "n \<in> set ds"
  shows "n \<in> set (exports (h a))"
  using assms set_report_entry [OF assms(1)] by (simp add: set_deadNames_countImports)

text \<open>The theorem on \<open>demo_heap\<close>, for the dead export \<open>foo\<close> of \<open>a.ts\<close>.\<close>

theorem dead_names_are_exports_witness:
  "(0, [''foo'']) \<in> set (getFilesWithDeadExports demo_heap [0, 1])
   \<and> ''foo'' \<in> set [''foo''] \<and> ''foo'' \<in> set (exports (demo_heap 0))"
proof -
  have 1: "(0, [''foo'']) \<in> set (getFilesWithDeadExports demo_heap [0, 1])" by code_simp
  have 2: "''foo'' \<in> set [''foo'']" by simp
  from dead_names_are_exports [OF 1 2] 1 2 show ?thesis by blast
qed

text \<open>
  C10. In a file list that holds each file once, as \<open>getExports\<close> builds it, no name
  occurs twice in the dead exports reported for a file, also when the exports of the
  file hold the name several times: the counters are keyed by name.
\<close>

theorem dead_names_distinct:
  assumes "distinct files" and "(a, ds) \<in> set (getFilesWithDeadExports h files)"
  shows "distinct ds"
  using report_entry_distinct_files [OF assms] by (simp add: distinct_deadNames_countImports)

text \<open>
  The theorem on \<open>overload_heap\<close> with \<open>a.ts\<close> alone: \<open>foo\<close> is exported twice, nothing
  imports it, and the report lists it once.
\<close>

theorem dead_names_distinct_witness:
  "distinct [0::nat] \<and> exports (overload_heap 0) = [''foo'', ''foo'']
   \<and> (0, [''foo'']) \<in> set (getFilesWithDeadExports overload_heap [0])
   \<and> distinct [''foo'']"
proof -
  have 1: "distinct [0::nat]" by simp
  have e: "exports (overload_heap 0) = [''foo'', ''foo'']" by code_simp
  have 2: "(0, [''foo'']) \<in> set (getFilesWithDeadExports overload_heap [0])" by code_simp
  from dead_names_distinct [OF 1 2] 1 e 2 show ?thesis by blast
qed

end
